theory Spec2Isabelle
  imports Main "HOL-Library.Word"
begin

unbundle bit_operations_syntax

section \<open>Python values: bytes, strings, exceptions\<close>

text \<open>
  A Python \<open>bytes\<close> object is a list of 8-bit words. A Python \<open>str\<close> is a sequence of
  Unicode code points, kept here as natural numbers; a \<open>str\<close> may hold lone surrogates
  (U+D800 to U+DFFF), which no codec encodes.
\<close>

type_synonym byte = "8 word"
type_synonym bytes = "byte list"
type_synonym pystr = "nat list"

text \<open>
  The exception classes the modelled code can meet. \<open>KeyboardInterrupt\<close> and
  \<open>SystemExit\<close> derive from \<open>BaseException\<close> only: an \<open>except Exception\<close> clause does
  not catch them.
\<close>

datatype pyexn =
    TypeError | ValueError | OverflowError | OSError
  | UnicodeEncodeError | UnicodeDecodeError
  | BinasciiError | InvalidTag
  | IntegrityError | DatabaseError
  | KeyboardInterrupt | SystemExit

fun isException :: "pyexn \<Rightarrow> bool" where
  "isException KeyboardInterrupt = False"
| "isException SystemExit = False"
| "isException _ = True"

subsection \<open>\<open>str.encode()\<close>: strict UTF-8\<close>

definition isSurrogate :: "nat \<Rightarrow> bool" where
  "isSurrogate cp = (0xD800 \<le> cp \<and> cp \<le> 0xDFFF)"

text \<open>One code point; \<open>None\<close> where the strict error handler raises.\<close>

definition utf8_encode_cp :: "nat \<Rightarrow> bytes option" where
  "utf8_encode_cp cp =
     (if cp < 0x80 then Some [of_nat cp]
      else if cp < 0x800 then
        Some [of_nat (0xC0 + cp div 64), of_nat (0x80 + cp mod 64)]
      else if cp < 0x10000 then
        (if isSurrogate cp then None
         else Some [of_nat (0xE0 + cp div 4096), of_nat (0x80 + cp div 64 mod 64),
                    of_nat (0x80 + cp mod 64)])
      else if cp < 0x110000 then
        Some [of_nat (0xF0 + cp div 262144), of_nat (0x80 + cp div 4096 mod 64),
              of_nat (0x80 + cp div 64 mod 64), of_nat (0x80 + cp mod 64)]
      else None)"

fun str_encode :: "pystr \<Rightarrow> pyexn + bytes" where
  "str_encode [] = Inr []"
| "str_encode (cp # s) =
     (case utf8_encode_cp cp of
        None \<Rightarrow> Inl UnicodeEncodeError
      | Some bs \<Rightarrow> (case str_encode s of Inl e \<Rightarrow> Inl e | Inr rest \<Rightarrow> Inr (bs @ rest)))"

text \<open>A string is well-formed text when every code point is a Unicode scalar value.\<close>

definition isScalar :: "nat \<Rightarrow> bool" where
  "isScalar cp = (cp < 0x110000 \<and> \<not> isSurrogate cp)"

definition wellFormed :: "pystr \<Rightarrow> bool" where
  "wellFormed s = list_all isScalar s"

subsection \<open>\<open>bytes.decode()\<close>: strict UTF-8\<close>

definition isCont :: "byte \<Rightarrow> bool" where
  "isCont b = (0x80 \<le> unat b \<and> unat b < 0xC0)"

definition contBits :: "byte \<Rightarrow> nat" where
  "contBits b = unat b - 0x80"

text \<open>
  One code point from the front of the input, with the bytes that follow it; \<open>None\<close>
  where the decoder raises: a stray continuation byte, a truncated sequence, an overlong
  form, a surrogate, a value above U+10FFFF.
\<close>

definition utf8_decode_cp :: "bytes \<Rightarrow> (nat \<times> bytes) option" where
  "utf8_decode_cp bs =
     (case bs of
        [] \<Rightarrow> None
      | b # r \<Rightarrow>
          let n = unat b in
          if n < 0x80 then Some (n, r)
          else if n < 0xC0 then None
          else if n < 0xE0 then
            (case r of
               c1 # r1 \<Rightarrow>
                 if isCont c1 then
                   (let cp = (n - 0xC0) * 64 + contBits c1
                    in if cp < 0x80 then None else Some (cp, r1))
                 else None
             | _ \<Rightarrow> None)
          else if n < 0xF0 then
            (case r of
               c1 # c2 # r2 \<Rightarrow>
                 if isCont c1 \<and> isCont c2 then
                   (let cp = ((n - 0xE0) * 64 + contBits c1) * 64 + contBits c2
                    in if cp < 0x800 \<or> isSurrogate cp then None else Some (cp, r2))
                 else None
             | _ \<Rightarrow> None)
          else if n < 0xF8 then
            (case r of
               c1 # c2 # c3 # r3 \<Rightarrow>
                 if isCont c1 \<and> isCont c2 \<and> isCont c3 then
                   (let cp = (((n - 0xF0) * 64 + contBits c1) * 64 + contBits c2) * 64
                              + contBits c3
                    in if cp < 0x10000 \<or> 0x110000 \<le> cp then None else Some (cp, r3))
                 else None
             | _ \<Rightarrow> None)
          else None)"

lemma utf8_decode_cp_shorter:
  "utf8_decode_cp bs = Some (cp, rest) \<Longrightarrow> length rest < length bs"
  by (auto simp: utf8_decode_cp_def Let_def split: list.splits if_splits)

function bytes_decode :: "bytes \<Rightarrow> pyexn + pystr" where
  "bytes_decode bs =
     (if bs = [] then Inr []
      else case utf8_decode_cp bs of
             None \<Rightarrow> Inl UnicodeDecodeError
           | Some (cp, rest) \<Rightarrow>
               (case bytes_decode rest of Inl e \<Rightarrow> Inl e | Inr s \<Rightarrow> Inr (cp # s)))"
  by pat_completeness auto
termination
  by (relation "measure length") (auto dest: utf8_decode_cp_shorter)

declare bytes_decode.simps [simp del]

text \<open>ASCII text written as an Isabelle string literal, as \<open>bytes\<close> and as \<open>str\<close>.\<close>

definition ascii_bytes :: "string \<Rightarrow> bytes" where
  "ascii_bytes s = map (\<lambda>c. of_nat (of_char c)) s"

definition ascii_str :: "string \<Rightarrow> pystr" where
  "ascii_str s = map of_char s"

section \<open>storage/database.py: the SQLite store\<close>

text \<open>
  The two tables \<open>initializeDatabase\<close> creates, with the constraints of their
  \<open>CREATE TABLE\<close> statements:
  \<^verbatim>\<open>api_keys(id INTEGER PRIMARY KEY AUTOINCREMENT, label TEXT UNIQUE NOT NULL,
           iv TEXT NOT NULL, ciphertext TEXT NOT NULL)\<close>
  \<^verbatim>\<open>users(id INTEGER PRIMARY KEY AUTOINCREMENT, password_hash TEXT NOT NULL)\<close>
  A connection is the database it is open on; rows are kept in rowid order, and each
  table has its \<open>AUTOINCREMENT\<close> counter. \<open>cipher_key\<close> is the SQLCipher key the file
  was created with. The \<open>users\<close> table has no constraint beyond \<open>NOT NULL\<close>.
\<close>

record api_keys_row =
  ak_id :: nat
  ak_label :: pystr
  ak_iv :: pystr
  ak_ciphertext :: pystr

record users_row =
  u_id :: nat
  u_password_hash :: pystr

record database =
  cipher_key :: bytes
  api_keys :: "api_keys_row list"
  api_keys_seq :: nat
  users :: "users_row list"
  users_seq :: nat

text \<open>
  \<open>initializeDatabase(dbPath, key)\<close>. The first argument is what the file at \<open>dbPath\<close>
  holds, \<open>None\<close> when no file is there. A new file gets the two empty tables. An existing
  one is probed with \<open>SELECT count(*) FROM api_keys\<close>, which raises \<open>DatabaseError\<close>
  under a key other than the file's; the function then returns \<open>None\<close>.
\<close>

definition initializeDatabase :: "database option \<Rightarrow> bytes \<Rightarrow> database option" where
  "initializeDatabase dbFile key =
     (case dbFile of
        None \<Rightarrow>
          Some \<lparr>cipher_key = key, api_keys = [], api_keys_seq = 0, users = [], users_seq = 0\<rparr>
      | Some db \<Rightarrow> (if cipher_key db = key then Some db else None))"

text \<open>
  Binding a \<open>str\<close> parameter of \<open>cursor.execute\<close> encodes it as UTF-8; a lone surrogate
  raises \<open>UnicodeEncodeError\<close> before the statement runs.
\<close>

definition bind_text :: "pystr \<Rightarrow> pyexn + pystr" where
  "bind_text s = (case str_encode s of Inl e \<Rightarrow> Inl e | Inr _ \<Rightarrow> Inr s)"




text \<open>
  \<open>getApiKeyByLabel(conn, label)\<close>:
  \<^verbatim>\<open>SELECT iv, ciphertext FROM api_keys WHERE label = ?;\<close> and \<open>fetchone()\<close>.
\<close>

definition getApiKeyByLabel :: "database \<Rightarrow> pystr \<Rightarrow> (pystr \<times> pystr) option" where
  "getApiKeyByLabel conn label =
     (case bind_text label of Inl e \<Rightarrow> None | Inr l \<Rightarrow>
      case filter (\<lambda>r. ak_label r = l) (api_keys conn) of
        [] \<Rightarrow> None
      | r # _ \<Rightarrow> Some (ak_iv r, ak_ciphertext r))"

text \<open>
  \<^verbatim>\<open>INSERT INTO users (password_hash) VALUES (?);\<close> No constraint of the table can
  fail for a text value.
\<close>

definition insert_users :: "database \<Rightarrow> pystr \<Rightarrow> pyexn + database" where
  "insert_users conn hash =
     (case bind_text hash of Inl e \<Rightarrow> Inl e | Inr h \<Rightarrow>
        Inr (conn\<lparr>users := users conn @ [\<lparr>u_id = Suc (users_seq conn), u_password_hash = h\<rparr>],
                  users_seq := Suc (users_seq conn)\<rparr>))"

text \<open>
  \<open>storePasswordHash(conn, hashedPassword)\<close>: \<open>hashedPassword.decode('utf-8')\<close>, the
  insert, and three \<open>except\<close> clauses (\<open>IntegrityError\<close>, \<open>UnicodeDecodeError\<close>,
  \<open>Exception\<close>) that all return \<open>False\<close>.
\<close>

definition storePasswordHash_body :: "database \<Rightarrow> bytes \<Rightarrow> pyexn + database" where
  "storePasswordHash_body conn hashedPassword =
     (case bytes_decode hashedPassword of
        Inl e \<Rightarrow> Inl e
      | Inr decodedHash \<Rightarrow> insert_users conn decodedHash)"

definition storePasswordHash :: "database \<Rightarrow> bytes \<Rightarrow> pyexn + bool \<times> database" where
  "storePasswordHash conn hashedPassword =
     (case storePasswordHash_body conn hashedPassword of
        Inr conn' \<Rightarrow> Inr (True, conn')
      | Inl e \<Rightarrow>
          if e = IntegrityError then Inr (False, conn)
          else if e = UnicodeDecodeError then Inr (False, conn)
          else if isException e then Inr (False, conn)
          else Inl e)"

text \<open>
  Log records, where a claim observes them: the level and the constant part of the
  message.
\<close>

datatype loglevel = DEBUG | INFO | WARNING | ERROR | CRITICAL

type_synonym logrecord = "loglevel \<times> string"

text \<open>
  \<open>getStoredPasswordHash(conn)\<close>: \<^verbatim>\<open>SELECT password_hash FROM users LIMIT 1;\<close>,
  \<open>fetchone()\<close>, and \<open>result[0].encode('utf-8')\<close>. The result is \<open>None\<close> when the table is
  empty and when the \<open>except Exception\<close> clause runs.
\<close>

definition getStoredPasswordHash ::
  "database \<Rightarrow> (pyexn + bytes option) \<times> logrecord list" where
  "getStoredPasswordHash conn =
     (case users conn of
        [] \<Rightarrow> (Inr None, [(WARNING, ''No password hash found in the RabbitHole database.'')])
      | r # _ \<Rightarrow>
          (case str_encode (u_password_hash r) of
             Inr bs \<Rightarrow>
               (Inr (Some bs),
                [(INFO, ''Retrieved stored password hash from the RabbitHole database.'')])
           | Inl e \<Rightarrow>
               if isException e
               then (Inr None,
                     [(INFO, ''Retrieved stored password hash from the RabbitHole database.''),
                      (ERROR, ''Failed to retrieve password hash from the RabbitHole database'')])
               else (Inl e,
                     [(INFO, ''Retrieved stored password hash from the RabbitHole database.'')])))"

section \<open>Facts about the codecs\<close>

lemma str_encode_wellFormed: "wellFormed s \<Longrightarrow> \<exists>bs. str_encode s = Inr bs"
proof (induction s)
  case Nil
  then show ?case by simp
next
  case (Cons cp s)
  then have "isScalar cp" and "wellFormed s"
    by (simp_all add: wellFormed_def)
  then obtain bs where "str_encode s = Inr bs"
    using Cons.IH by blast
  moreover have "utf8_encode_cp cp \<noteq> None"
    using \<open>isScalar cp\<close> by (simp add: utf8_encode_cp_def isScalar_def)
  ultimately show ?case by auto
qed



lemma bind_text_wellFormed: "wellFormed s \<Longrightarrow> bind_text s = Inr s"
  using str_encode_wellFormed [of s] by (auto simp: bind_text_def)


lemma wellFormed_ascii_str: "list_all (\<lambda>c. of_char c < (128::nat)) s \<Longrightarrow> wellFormed (ascii_str s)"
  by (induction s) (auto simp: wellFormed_def ascii_str_def isScalar_def isSurrogate_def)

section \<open>Label uniqueness\<close>




section \<open>The stored password hash\<close>

lemma isCont_bounds: "isCont b \<Longrightarrow> contBits b < 64"
  by (auto simp: isCont_def contBits_def)

lemma utf8_decode_cp_scalar: "utf8_decode_cp bs = Some (cp, rest) \<Longrightarrow> isScalar cp"
  by (auto simp: utf8_decode_cp_def Let_def isScalar_def isSurrogate_def
           split: list.splits if_splits dest!: isCont_bounds)

lemma bytes_decode_wellFormed: "bytes_decode bs = Inr s \<Longrightarrow> wellFormed s"
proof (induction bs arbitrary: s rule: bytes_decode.induct)
  case (1 bs)
  show ?case
  proof (cases "bs = []")
    case True
    with "1.prems" show ?thesis
      by (simp add: bytes_decode.simps wellFormed_def)
  next
    case False
    with "1.prems" obtain cp rest t where
      dec: "utf8_decode_cp bs = Some (cp, rest)" and
      tl: "bytes_decode rest = Inr t" and s: "s = cp # t"
      by (subst (asm) bytes_decode.simps) (auto split: option.splits sum.splits)
    have "wellFormed t"
      using "1.IH" [OF False dec refl tl] .
    with utf8_decode_cp_scalar [OF dec] s show ?thesis
      by (simp add: wellFormed_def)
  qed
qed

text \<open>
  Whatever the \<open>users\<close> table already holds, storing a hash that is valid UTF-8 succeeds
  and adds a row: the \<open>IntegrityError\<close> clause of \<open>storePasswordHash\<close> is never taken.
\<close>

lemma storePasswordHash_accepts:
  assumes "bytes_decode h = Inr s"
  shows "storePasswordHash conn h =
           Inr (True, conn\<lparr>users := users conn @
                               [\<lparr>u_id = Suc (users_seq conn), u_password_hash = s\<rparr>],
                             users_seq := Suc (users_seq conn)\<rparr>)"
  using assms bind_text_wellFormed [OF bytes_decode_wellFormed [OF assms]]
  by (simp add: storePasswordHash_def storePasswordHash_body_def insert_users_def)

definition hashA :: bytes where
  "hashA = ascii_bytes ''$2b$12$abcdefghijklmnopqrstuuMOrdE8q/3fqfkGlzWbhYeOpb2rYtt5G''"

definition hashB :: bytes where
  "hashB = ascii_bytes ''$2b$12$ABCDEFGHIJKLMNOPQRSTUuKDiRuwDRQT6kfTXQPirZsnBEK4erDIO''"

definition newVault :: database where
  "newVault = \<lparr>cipher_key = [], api_keys = [], api_keys_seq = 0, users = [], users_seq = 0\<rparr>"

lemma bytes_decode_hashA:
  "bytes_decode hashA =
     Inr (ascii_str ''$2b$12$abcdefghijklmnopqrstuuMOrdE8q/3fqfkGlzWbhYeOpb2rYtt5G'')"
  by code_simp

lemma bytes_decode_hashB:
  "bytes_decode hashB =
     Inr (ascii_str ''$2b$12$ABCDEFGHIJKLMNOPQRSTUuKDiRuwDRQT6kfTXQPirZsnBEK4erDIO'')"
  by code_simp

lemma str_encode_hashA:
  "str_encode (ascii_str ''$2b$12$abcdefghijklmnopqrstuuMOrdE8q/3fqfkGlzWbhYeOpb2rYtt5G'')
     = Inr hashA"
  by code_simp

text \<open>
  C7. On a vault created by \<open>initializeDatabase\<close>, a first \<open>storePasswordHash\<close> succeeds,
  and so does a second one with another hash: it returns \<open>True\<close> and the \<open>users\<close> table
  then holds two password hashes. \<open>getStoredPasswordHash\<close> still returns the first.
\<close>

theorem storePasswordHash_twice:
  "initializeDatabase None [] = Some newVault \<and>
   (\<exists>conn1 conn2.
      storePasswordHash newVault hashA = Inr (True, conn1) \<and>
      storePasswordHash conn1 hashB = Inr (True, conn2) \<and>
      length (users conn2) = 2 \<and>
      map u_password_hash (users conn2) =
        [ascii_str ''$2b$12$abcdefghijklmnopqrstuuMOrdE8q/3fqfkGlzWbhYeOpb2rYtt5G'',
         ascii_str ''$2b$12$ABCDEFGHIJKLMNOPQRSTUuKDiRuwDRQT6kfTXQPirZsnBEK4erDIO''] \<and>
      fst (getStoredPasswordHash conn2) = Inr (Some hashA))"
proof -
  have "initializeDatabase None [] = Some newVault"
    by (simp add: initializeDatabase_def newVault_def)
  moreover note storePasswordHash_accepts [OF bytes_decode_hashA, of newVault]
  moreover note storePasswordHash_accepts [OF bytes_decode_hashB]
  ultimately show ?thesis
    by (simp add: getStoredPasswordHash_def str_encode_hashA newVault_def)
qed

section \<open>The \<open>base64\<close> module\<close>

text \<open>
  \<open>base64.b64encode\<close> is \<open>binascii.b2a_base64\<close> without the newline: RFC 4648 with the
  standard alphabet and \<open>=\<close> padding, three bytes to four symbols.
\<close>

definition table_b2a_base64 :: "nat \<Rightarrow> byte" where
  "table_b2a_base64 v =
     (if v < 26 then of_nat (65 + v)
      else if v < 52 then of_nat (71 + v)
      else if v < 62 then of_nat (v - 4)
      else if v = 62 then 0x2B
      else 0x2F)"

definition BASE64_PAD :: byte where
  "BASE64_PAD = 0x3D"

fun b2a_base64 :: "bytes \<Rightarrow> bytes" where
  "b2a_base64 [] = []"
| "b2a_base64 [a] =
     [table_b2a_base64 (unat a div 4), table_b2a_base64 (unat a mod 4 * 16),
      BASE64_PAD, BASE64_PAD]"
| "b2a_base64 [a, b] =
     [table_b2a_base64 (unat a div 4),
      table_b2a_base64 (unat a mod 4 * 16 + unat b div 16),
      table_b2a_base64 (unat b mod 16 * 4), BASE64_PAD]"
| "b2a_base64 (a # b # c # rest) =
     [table_b2a_base64 (unat a div 4),
      table_b2a_base64 (unat a mod 4 * 16 + unat b div 16),
      table_b2a_base64 (unat b mod 16 * 4 + unat c div 64),
      table_b2a_base64 (unat c mod 64)] @ b2a_base64 rest"

definition b64encode :: "bytes \<Rightarrow> bytes" where
  "b64encode s = b2a_base64 s"

text \<open>
  \<open>binascii.a2b_base64\<close> in its default, non-strict mode. \<open>table_a2b_base64\<close> gives the
  value of a symbol of the alphabet; every other byte is skipped. The loop keeps the
  position in the current group of four (\<open>quad_pos\<close>), the bits left over from the
  previous symbol (\<open>leftchar\<close>) and the count of padding bytes seen (\<open>pads\<close>). A padding
  sequence that completes a group ends the parse; whatever bits are left over are dropped.
\<close>

definition table_a2b_base64 :: "byte \<Rightarrow> nat option" where
  "table_a2b_base64 c =
     (let n = unat c in
      if 65 \<le> n \<and> n \<le> 90 then Some (n - 65)
      else if 97 \<le> n \<and> n \<le> 122 then Some (n - 71)
      else if 48 \<le> n \<and> n \<le> 57 then Some (n + 4)
      else if n = 43 then Some 62
      else if n = 47 then Some 63
      else None)"

fun a2b_loop :: "nat \<Rightarrow> nat \<Rightarrow> nat \<Rightarrow> bytes \<Rightarrow> bytes \<Rightarrow> pyexn + bytes" where
  "a2b_loop quad_pos leftchar pads out [] =
     (if quad_pos \<noteq> 0 then Inl BinasciiError else Inr out)"
| "a2b_loop quad_pos leftchar pads out (this_ch # ascii_data) =
     (if this_ch = BASE64_PAD then
        (if quad_pos \<ge> 2 \<and> quad_pos + (pads + 1) \<ge> 4 then Inr out
         else a2b_loop quad_pos leftchar (if quad_pos \<ge> 2 then pads + 1 else pads) out
                ascii_data)
      else
        (case table_a2b_base64 this_ch of
           None \<Rightarrow> a2b_loop quad_pos leftchar pads out ascii_data
         | Some v \<Rightarrow>
             if quad_pos = 0 then a2b_loop 1 v 0 out ascii_data
             else if quad_pos = 1 then
               a2b_loop 2 (v mod 16) 0 (out @ [of_nat (leftchar * 4 + v div 16)]) ascii_data
             else if quad_pos = 2 then
               a2b_loop 3 (v mod 4) 0 (out @ [of_nat (leftchar * 16 + v div 4)]) ascii_data
             else
               a2b_loop 0 0 0 (out @ [of_nat (leftchar * 64 + v)]) ascii_data))"

definition a2b_base64 :: "bytes \<Rightarrow> pyexn + bytes" where
  "a2b_base64 data = a2b_loop 0 0 0 [] data"

text \<open>
  Python objects, as far as the arguments of the encryption functions go.
\<close>

datatype pyobj = PyNone | PyBytes bytes | PyStr pystr | PyInt int

text \<open>\<open>s.encode('ascii')\<close> inside \<open>b64decode\<close>; a non-ASCII character is a \<open>ValueError\<close>.\<close>

definition ascii_encode :: "pystr \<Rightarrow> pyexn + bytes" where
  "ascii_encode s = (if list_all (\<lambda>cp. cp < 0x80) s then Inr (map of_nat s) else Inl ValueError)"

definition b64decode :: "pyobj \<Rightarrow> pyexn + bytes" where
  "b64decode s =
     (case s of
        PyStr t \<Rightarrow> (case ascii_encode t of Inl e \<Rightarrow> Inl e | Inr bs \<Rightarrow> a2b_base64 bs)
      | PyBytes bs \<Rightarrow> a2b_base64 bs
      | _ \<Rightarrow> Inl TypeError)"


lemma unat_byte_less: "unat (b :: byte) < 256"
  using unsigned_less [of b, where 'a = nat] by simp

lemma unat_of_nat_byte: "n < 256 \<Longrightarrow> unat (of_nat n :: byte) = n"
  by (simp add: unat_of_nat)

lemma table_b2a_base64_unat:
  assumes "v < 64"
  shows "unat (table_b2a_base64 v) =
     (if v < 26 then 65 + v else if v < 52 then 71 + v else if v < 62 then v - 4
      else if v = 62 then 43 else 47)"
proof -
  have "unat (of_nat (65 + v) :: byte) = 65 + v" if "v < 26"
    using that by (intro unat_of_nat_byte) simp
  moreover have "unat (of_nat (71 + v) :: byte) = 71 + v" if "v < 52"
    using that by (intro unat_of_nat_byte) simp
  moreover have "unat (of_nat (v - 4) :: byte) = v - 4"
    using assms by (intro unat_of_nat_byte) simp
  ultimately show ?thesis
    by (simp only: table_b2a_base64_def split: if_splits) simp
qed

lemma table_roundtrip:
  assumes "v < 64"
  shows "table_a2b_base64 (table_b2a_base64 v) = Some v"
    and "table_b2a_base64 v \<noteq> BASE64_PAD"
proof -
  show "table_a2b_base64 (table_b2a_base64 v) = Some v"
    unfolding table_a2b_base64_def Let_def table_b2a_base64_unat [OF assms]
    using assms by (auto split: if_splits)
  have "unat (table_b2a_base64 v) \<noteq> unat BASE64_PAD"
    unfolding table_b2a_base64_unat [OF assms] using assms
    by (simp add: BASE64_PAD_def split: if_splits) arith
  then show "table_b2a_base64 v \<noteq> BASE64_PAD"
    by auto
qed

lemma a2b_loop_symbol:
  assumes "v < 64"
  shows "a2b_loop q l p out (table_b2a_base64 v # cs) =
           (if q = 0 then a2b_loop 1 v 0 out cs
            else if q = 1 then a2b_loop 2 (v mod 16) 0 (out @ [of_nat (l * 4 + v div 16)]) cs
            else if q = 2 then a2b_loop 3 (v mod 4) 0 (out @ [of_nat (l * 16 + v div 4)]) cs
            else a2b_loop 0 0 0 (out @ [of_nat (l * 64 + v)]) cs)"
  using table_roundtrip [OF assms] by simp

lemma sextet_arith:
  fixes a b c :: nat
  shows "b < 256 \<Longrightarrow> a div 4 * 4 + (a mod 4 * 16 + b div 16) div 16 = a"
    and "b < 256 \<Longrightarrow> c < 256 \<Longrightarrow>
           (a mod 4 * 16 + b div 16) mod 16 * 16 + (b mod 16 * 4 + c div 64) div 4 = b"
    and "c < 256 \<Longrightarrow> (b mod 16 * 4 + c div 64) mod 4 * 64 + c mod 64 = c"
    and "a div 4 * 4 + (a mod 4 * 16) div 16 = a"
    and "b < 256 \<Longrightarrow> (a mod 4 * 16 + b div 16) mod 16 * 16 + (b mod 16 * 4) div 4 = b"
proof -
  have h1: "(r * 16 + d) div 16 = r" "(r * 16 + d) mod 16 = d" if "d < 16" for r d :: nat
    using that by simp_all
  have h2: "(r * 4 + d) div 4 = r" "(r * 4 + d) mod 4 = d" if "d < 4" for r d :: nat
    using that by simp_all
  have h3: "b div 16 < 16" if "b < 256" for b :: nat
    using that by simp
  have h4: "c div 64 < 4" if "c < 256" for c :: nat
    using that by simp
  show "b < 256 \<Longrightarrow> a div 4 * 4 + (a mod 4 * 16 + b div 16) div 16 = a"
    by (simp add: h1 h3)
  show "b < 256 \<Longrightarrow> c < 256 \<Longrightarrow>
           (a mod 4 * 16 + b div 16) mod 16 * 16 + (b mod 16 * 4 + c div 64) div 4 = b"
    by (simp add: h1 h2 h3 h4)
  show "c < 256 \<Longrightarrow> (b mod 16 * 4 + c div 64) mod 4 * 64 + c mod 64 = c"
    by (simp add: h2 h4)
  show "a div 4 * 4 + (a mod 4 * 16) div 16 = a"
    by simp
  show "b < 256 \<Longrightarrow> (a mod 4 * 16 + b div 16) mod 16 * 16 + (b mod 16 * 4) div 4 = b"
    by (simp add: h1 h3)
qed

lemma byte_of_unat_parts:
  fixes a b c :: byte
  shows "of_nat (unat a div 4 * 4 + (unat a mod 4 * 16 + unat b div 16) div 16) = a"
    and "of_nat ((unat a mod 4 * 16 + unat b div 16) mod 16 * 16
                 + (unat b mod 16 * 4 + unat c div 64) div 4) = b"
    and "of_nat ((unat b mod 16 * 4 + unat c div 64) mod 4 * 64 + unat c mod 64) = c"
    and "of_nat (unat a div 4 * 4 + (unat a mod 4 * 16) div 16) = a"
    and "of_nat ((unat a mod 4 * 16 + unat b div 16) mod 16 * 16
                 + (unat b mod 16 * 4) div 4) = b"
  by (simp_all only: sextet_arith unat_byte_less of_nat_unat unsigned_eq_0_iff ucast_id)

lemma sextet_bounds:
  fixes a b c :: byte
  shows "unat a div 4 < 64" "unat a mod 4 * 16 + unat b div 16 < 64"
    "unat b mod 16 * 4 + unat c div 64 < 64" "unat c mod 64 < 64"
    "unat a mod 4 * 16 < 64" "unat b mod 16 * 4 < 64"
proof -
  have "x div 4 < 64 \<and> x mod 4 * 16 + y div 16 < 64 \<and> y mod 16 * 4 + z div 64 < 64 \<and>
        z mod 64 < 64 \<and> x mod 4 * 16 < 64 \<and> y mod 16 * 4 < 64"
    if "x < 256" "y < 256" "z < 256" for x y z :: nat
    using that by (auto simp: less_mult_imp_div_less intro: add_lessD1)
  from this [OF unat_byte_less [of a] unat_byte_less [of b] unat_byte_less [of c]]
  show "unat a div 4 < 64" "unat a mod 4 * 16 + unat b div 16 < 64"
    "unat b mod 16 * 4 + unat c div 64 < 64" "unat c mod 64 < 64"
    "unat a mod 4 * 16 < 64" "unat b mod 16 * 4 < 64"
    by simp_all
qed

lemma a2b_loop_pad:
  "a2b_loop q l p out (BASE64_PAD # cs) =
     (if q \<ge> 2 \<and> q + (p + 1) \<ge> 4 then Inr out
      else a2b_loop q l (if q \<ge> 2 then p + 1 else p) out cs)"
  by simp

lemma a2b_loop_b2a_base64: "a2b_loop 0 l p out (b2a_base64 bs) = Inr (out @ bs)"
proof (induction bs arbitrary: l p out rule: b2a_base64.induct)
  case 1
  then show ?case by simp
next
  case (2 a)
  show ?case
    by (simp only: b2a_base64.simps a2b_loop_symbol sextet_bounds a2b_loop_pad
          byte_of_unat_parts) simp
next
  case (3 a b)
  show ?case
    by (simp only: b2a_base64.simps a2b_loop_symbol sextet_bounds a2b_loop_pad
          byte_of_unat_parts) simp
next
  case (4 a b c rest)
  show ?case
    by (simp only: b2a_base64.simps append_Cons append_Nil a2b_loop_symbol sextet_bounds
          byte_of_unat_parts) (simp add: "4.IH")
qed

lemma a2b_b2a_base64: "a2b_base64 (b64encode bs) = Inr bs"
  by (simp add: a2b_base64_def b64encode_def a2b_loop_b2a_base64)

section \<open>AES-GCM as \<open>cryptography\<close>'s \<open>AESGCM\<close> computes it\<close>

text \<open>
  The mode of operation is NIST SP 800-38D, written out below. The AES block function
  itself is a parameter \<open>E\<close>: \<open>E key x\<close> is the encryption of the 128-bit block \<open>x\<close> under
  the key bytes \<open>key\<close>. Nothing proved here depends on what it computes.
\<close>

type_synonym block = "128 word"
type_synonym blockcipher = "bytes \<Rightarrow> block \<Rightarrow> block"

text \<open>Big-endian conversion; a short final block is padded with zero bytes on the right.\<close>

definition block_of_bytes :: "bytes \<Rightarrow> block" where
  "block_of_bytes bs =
     foldl (\<lambda>acc b. push_bit 8 acc OR ucast b) 0 (take 16 (bs @ replicate 16 0))"

definition bytes_of_block :: "block \<Rightarrow> bytes" where
  "bytes_of_block w = map (\<lambda>i. ucast (drop_bit (8 * (15 - i)) w)) [0..<16]"

definition xor_bytes :: "bytes \<Rightarrow> bytes \<Rightarrow> bytes" where
  "xor_bytes a b = map2 (XOR) a b"

function blocks_of :: "bytes \<Rightarrow> block list" where
  "blocks_of bs = (if bs = [] then [] else block_of_bytes (take 16 bs) # blocks_of (drop 16 bs))"
  by pat_completeness auto
termination
  by (relation "measure length") auto

declare blocks_of.simps [simp del]

text \<open>Multiplication in GF(2^128) with the GCM bit order, and GHASH.\<close>

definition gf_R :: block where
  "gf_R = push_bit 120 0xE1"

fun gf_mult_bits :: "bool list \<Rightarrow> block \<Rightarrow> block \<Rightarrow> block" where
  "gf_mult_bits [] z v = z"
| "gf_mult_bits (xi # xs) z v =
     gf_mult_bits xs (if xi then z XOR v else z)
       (if bit v 0 then drop_bit 1 v XOR gf_R else drop_bit 1 v)"

definition gf_mult :: "block \<Rightarrow> block \<Rightarrow> block" where
  "gf_mult x y = gf_mult_bits (map (\<lambda>i. bit x (127 - i)) [0..<128]) 0 y"

fun ghash :: "block \<Rightarrow> block \<Rightarrow> block list \<Rightarrow> block" where
  "ghash h y [] = y"
| "ghash h y (x # xs) = ghash h (gf_mult (y XOR x) h) xs"

definition inc32 :: "block \<Rightarrow> block" where
  "inc32 x = (x AND NOT 0xFFFFFFFF) OR ((x + 1) AND 0xFFFFFFFF)"

function gctr :: "blockcipher \<Rightarrow> bytes \<Rightarrow> block \<Rightarrow> bytes \<Rightarrow> bytes" where
  "gctr E key ctr x =
     (if x = [] then []
      else xor_bytes (take 16 x) (bytes_of_block (E key ctr))
           @ gctr E key (inc32 ctr) (drop 16 x))"
  by pat_completeness auto
termination
  by (relation "measure (\<lambda>(E, key, ctr, x). length x)") auto

declare gctr.simps [simp del]

definition gcm_j0 :: "blockcipher \<Rightarrow> bytes \<Rightarrow> bytes \<Rightarrow> block" where
  "gcm_j0 E key iv =
     (if length iv = 12 then block_of_bytes (iv @ [0, 0, 0, 1])
      else ghash (E key 0) 0 (blocks_of iv @ [of_nat (8 * length iv)]))"

definition gcm_tag :: "blockcipher \<Rightarrow> bytes \<Rightarrow> bytes \<Rightarrow> bytes \<Rightarrow> bytes \<Rightarrow> bytes" where
  "gcm_tag E key iv aad c =
     bytes_of_block
       (ghash (E key 0) 0
          (blocks_of aad @ blocks_of c @
           [push_bit 64 (of_nat (8 * length aad)) OR of_nat (8 * length c)])
        XOR E key (gcm_j0 E key iv))"

definition gcm_encrypt :: "blockcipher \<Rightarrow> bytes \<Rightarrow> bytes \<Rightarrow> bytes \<Rightarrow> bytes \<Rightarrow> bytes" where
  "gcm_encrypt E key iv p aad =
     (let c = gctr E key (inc32 (gcm_j0 E key iv)) p in c @ gcm_tag E key iv aad c)"

definition gcm_decrypt ::
  "blockcipher \<Rightarrow> bytes \<Rightarrow> bytes \<Rightarrow> bytes \<Rightarrow> bytes \<Rightarrow> pyexn + bytes" where
  "gcm_decrypt E key iv data aad =
     (if length data < 16 then Inl InvalidTag
      else
        let c = take (length data - 16) data; t = drop (length data - 16) data in
        if gcm_tag E key iv aad c = t then Inr (gctr E key (inc32 (gcm_j0 E key iv)) c)
        else Inl InvalidTag)"

text \<open>
  The checks of the \<open>AESGCM\<close> class around the mode: the key is bytes-like and 128, 192
  or 256 bits long; the nonce is 8 to 128 bytes; the data to encrypt is at most
  \<open>2^31 - 1\<close> bytes. No associated data is passed (\<open>None\<close> stands for \<open>b""\<close>).
\<close>

definition AESGCM :: "pyobj \<Rightarrow> pyexn + bytes" where
  "AESGCM key =
     (case key of
        PyBytes k \<Rightarrow> if length k \<in> {16, 24, 32} then Inr k else Inl ValueError
      | _ \<Rightarrow> Inl TypeError)"

definition MAX_SIZE :: nat where
  "MAX_SIZE = 2 ^ 31 - 1"

definition AESGCM_encrypt :: "blockcipher \<Rightarrow> bytes \<Rightarrow> bytes \<Rightarrow> bytes \<Rightarrow> pyexn + bytes" where
  "AESGCM_encrypt E key nonce data =
     (if length data > MAX_SIZE then Inl OverflowError
      else if length nonce < 8 \<or> length nonce > 128 then Inl ValueError
      else Inr (gcm_encrypt E key nonce data []))"

definition AESGCM_decrypt :: "blockcipher \<Rightarrow> bytes \<Rightarrow> bytes \<Rightarrow> bytes \<Rightarrow> pyexn + bytes" where
  "AESGCM_decrypt E key nonce data =
     (if length nonce < 8 \<or> length nonce > 128 then Inl ValueError
      else gcm_decrypt E key nonce data [])"


lemma length_bytes_of_block [simp]: "length (bytes_of_block w) = 16"
  by (simp add: bytes_of_block_def)

lemma length_xor_bytes [simp]: "length (xor_bytes a b) = min (length a) (length b)"
  by (simp add: xor_bytes_def)

lemma xor_bytes_twice: "length a \<le> length b \<Longrightarrow> xor_bytes (xor_bytes a b) b = a"
proof (induction a arbitrary: b)
  case Nil
  then show ?case by (simp add: xor_bytes_def)
next
  case (Cons x a)
  then obtain y b' where b: "b = y # b'"
    by (cases b) auto
  with Cons.prems have "length a \<le> length b'"
    by simp
  from Cons.IH [OF this] show ?case
    by (simp add: b xor_bytes_def xor.assoc)
qed

lemma length_gctr: "length (gctr E key ctr x) = length x"
proof (induction E key ctr x rule: gctr.induct)
  case (1 E key ctr x)
  show ?case
  proof (cases "x = []")
    case True
    then show ?thesis by (simp add: gctr.simps)
  next
    case False
    with "1.IH" show ?thesis
      by (subst gctr.simps) (simp add: min_def)
  qed
qed

lemma gctr_involution: "gctr E key ctr (gctr E key ctr x) = x"
proof (induction E key ctr x rule: gctr.induct)
  case (1 E key ctr x)
  show ?case
  proof (cases "x = []")
    case True
    then show ?thesis by (simp add: gctr.simps)
  next
    case False
    let ?ks = "bytes_of_block (E key ctr)"
    let ?hd = "xor_bytes (take 16 x) ?ks"
    let ?tl = "gctr E key (inc32 ctr) (drop 16 x)"
    have unfold: "gctr E key ctr x = ?hd @ ?tl"
      using False gctr.simps [of E key ctr x] by (simp only: if_False)
    have len_hd: "length ?hd = min 16 (length x)"
      by (simp add: min.commute)
    have tl_Nil: "?tl = []" if "\<not> 16 \<le> length x"
    proof -
      from that have "drop 16 x = []" by simp
      then show ?thesis by (simp add: gctr.simps)
    qed
    have take_hd: "take 16 (?hd @ ?tl) = ?hd"
    proof (cases "16 \<le> length x")
      case True
      then show ?thesis using len_hd by simp
    next
      case False
      then show ?thesis using len_hd tl_Nil by simp
    qed
    have drop_hd: "drop 16 (?hd @ ?tl) = ?tl"
    proof (cases "16 \<le> length x")
      case True
      then show ?thesis using len_hd by simp
    next
      case False
      then show ?thesis using len_hd tl_Nil by simp
    qed
    have "0 < min 16 (length x)"
      using False by (cases x) simp_all
    then have "0 < length (?hd @ ?tl)"
      by (simp only: length_append len_hd)
    then have ne: "?hd @ ?tl \<noteq> []"
      by (metis length_greater_0_conv)
    have "gctr E key ctr (?hd @ ?tl) =
            xor_bytes (take 16 (?hd @ ?tl)) ?ks @ gctr E key (inc32 ctr) (drop 16 (?hd @ ?tl))"
      using ne gctr.simps [of E key ctr "?hd @ ?tl"] by (simp only: if_False)
    also have "\<dots> = xor_bytes ?hd ?ks @ gctr E key (inc32 ctr) ?tl"
      by (simp only: take_hd drop_hd)
    also have "xor_bytes ?hd ?ks = take 16 x"
      by (rule xor_bytes_twice) simp
    also have "gctr E key (inc32 ctr) ?tl = drop 16 x"
      using "1.IH" [OF False] .
    finally show ?thesis
      by (simp add: unfold)
  qed
qed

lemma length_gcm_tag [simp]: "length (gcm_tag E key iv aad c) = 16"
  by (simp add: gcm_tag_def)

lemma gcm_decrypt_encrypt: "gcm_decrypt E key iv (gcm_encrypt E key iv p aad) aad = Inr p"
  by (simp add: gcm_decrypt_def gcm_encrypt_def Let_def length_gctr gctr_involution)

section \<open>UTF-8: decoding what was encoded\<close>

lemma utf8_encode_cp_shape:
  assumes "utf8_encode_cp cp = Some enc"
  shows "(cp < 0x80 \<and> (\<exists>b0. enc = [b0] \<and> unat b0 = cp)) \<or>
         (0x80 \<le> cp \<and> cp < 0x800 \<and>
            (\<exists>b0 c1. enc = [b0, c1] \<and> unat b0 = 0xC0 + cp div 64 \<and>
               unat c1 = 0x80 + cp mod 64)) \<or>
         (0x800 \<le> cp \<and> cp < 0x10000 \<and> \<not> isSurrogate cp \<and>
            (\<exists>b0 c1 c2. enc = [b0, c1, c2] \<and> unat b0 = 0xE0 + cp div 4096 \<and>
               unat c1 = 0x80 + cp div 64 mod 64 \<and> unat c2 = 0x80 + cp mod 64)) \<or>
         (0x10000 \<le> cp \<and> cp < 0x110000 \<and>
            (\<exists>b0 c1 c2 c3. enc = [b0, c1, c2, c3] \<and> unat b0 = 0xF0 + cp div 262144 \<and>
               unat c1 = 0x80 + cp div 4096 mod 64 \<and> unat c2 = 0x80 + cp div 64 mod 64 \<and>
               unat c3 = 0x80 + cp mod 64))"
proof -
  have m: "unat (of_nat (0x80 + n mod 64) :: byte) = 0x80 + n mod 64" for n :: nat
    by (intro unat_of_nat_byte) simp
  consider "cp < 0x80" | "0x80 \<le> cp" "cp < 0x800" | "0x800 \<le> cp" "cp < 0x10000"
    | "0x10000 \<le> cp" "cp < 0x110000" | "0x110000 \<le> cp"
    by linarith
  then show ?thesis
  proof cases
    case 1
    then have "unat (of_nat cp :: byte) = cp"
      by (intro unat_of_nat_byte) simp
    with 1 assms show ?thesis
      by (simp only: utf8_encode_cp_def if_True option.inject) blast
  next
    case 2
    then have "cp div 64 < 32" by simp
    then have "unat (of_nat (0xC0 + cp div 64) :: byte) = 0xC0 + cp div 64"
      by (intro unat_of_nat_byte) simp
    moreover have "enc = [of_nat (0xC0 + cp div 64), of_nat (0x80 + cp mod 64)]"
      using 2 assms by (simp add: utf8_encode_cp_def del: of_nat_add of_nat_numeral)
    ultimately show ?thesis
      using 2 m [of cp] by blast
  next
    case 3
    then have "cp div 4096 < 16" by simp
    then have "unat (of_nat (0xE0 + cp div 4096) :: byte) = 0xE0 + cp div 4096"
      by (intro unat_of_nat_byte) simp
    moreover have "\<not> isSurrogate cp \<and>
      enc = [of_nat (0xE0 + cp div 4096), of_nat (0x80 + cp div 64 mod 64),
             of_nat (0x80 + cp mod 64)]"
      using 3 assms
      by (simp add: utf8_encode_cp_def del: of_nat_add of_nat_numeral split: if_splits)
    ultimately show ?thesis
      using 3 m [of cp] m [of "cp div 64"] by blast
  next
    case 4
    then have "cp div 262144 < 5" by simp
    then have "unat (of_nat (0xF0 + cp div 262144) :: byte) = 0xF0 + cp div 262144"
      by (intro unat_of_nat_byte) simp
    moreover have
      "enc = [of_nat (0xF0 + cp div 262144), of_nat (0x80 + cp div 4096 mod 64),
              of_nat (0x80 + cp div 64 mod 64), of_nat (0x80 + cp mod 64)]"
      using 4 assms
      by (simp add: utf8_encode_cp_def del: of_nat_add of_nat_numeral)
    ultimately show ?thesis
      using 4 m [of cp] m [of "cp div 64"] m [of "cp div 4096"] by blast
  next
    case 5
    with assms show ?thesis
      by (simp add: utf8_encode_cp_def)
  qed
qed


lemma utf8_recompose:
  fixes cp :: nat
  shows "cp div 64 * 64 + cp mod 64 = cp"
    and "(cp div 4096 * 64 + cp div 64 mod 64) * 64 + cp mod 64 = cp"
    and "((cp div 262144 * 64 + cp div 4096 mod 64) * 64 + cp div 64 mod 64) * 64
           + cp mod 64 = cp"
proof -
  have a: "n div 64 * 64 + n mod 64 = n" for n :: nat
    by simp
  have "n div (64 * 64) = n div 64 div 64" for n :: nat
    by (rule div_mult2_eq)
  then have d: "n div 4096 = n div 64 div 64" for n :: nat
    by simp
  have "n div (4096 * 64) = n div 4096 div 64" for n :: nat
    by (rule div_mult2_eq)
  then have e: "n div 262144 = n div 4096 div 64" for n :: nat
    by simp
  have b: "n div 4096 * 64 + n div 64 mod 64 = n div 64" for n :: nat
    by (simp only: d a)
  have c: "n div 262144 * 64 + n div 4096 mod 64 = n div 4096" for n :: nat
    by (simp only: e a)
  show "cp div 64 * 64 + cp mod 64 = cp"
    by (rule a)
  show "(cp div 4096 * 64 + cp div 64 mod 64) * 64 + cp mod 64 = cp"
    by (simp only: b a)
  show "((cp div 262144 * 64 + cp div 4096 mod 64) * 64 + cp div 64 mod 64) * 64
           + cp mod 64 = cp"
    by (simp only: c b a)
qed

lemma utf8_decode_cp_encode:
  assumes "utf8_encode_cp cp = Some enc"
  shows "utf8_decode_cp (enc @ rest) = Some (cp, rest)"
proof -
  have cont: "isCont c \<and> contBits c = n mod 64" if "unat c = 0x80 + n mod 64" for c n
    using that by (simp add: isCont_def contBits_def)
  from utf8_encode_cp_shape [OF assms] consider
      b0 where "cp < 0x80" "enc = [b0]" "unat b0 = cp"
    | b0 c1 where "0x80 \<le> cp" "cp < 0x800" "enc = [b0, c1]" "unat b0 = 0xC0 + cp div 64"
        "unat c1 = 0x80 + cp mod 64"
    | b0 c1 c2 where "0x800 \<le> cp" "cp < 0x10000" "\<not> isSurrogate cp" "enc = [b0, c1, c2]"
        "unat b0 = 0xE0 + cp div 4096" "unat c1 = 0x80 + cp div 64 mod 64"
        "unat c2 = 0x80 + cp mod 64"
    | b0 c1 c2 c3 where "0x10000 \<le> cp" "cp < 0x110000" "enc = [b0, c1, c2, c3]"
        "unat b0 = 0xF0 + cp div 262144" "unat c1 = 0x80 + cp div 4096 mod 64"
        "unat c2 = 0x80 + cp div 64 mod 64" "unat c3 = 0x80 + cp mod 64"
    by blast
  then show ?thesis
  proof cases
    case 1
    then show ?thesis
      by (simp add: utf8_decode_cp_def)
  next
    case 2
    then have "cp div 64 < 32" by simp
    with 2 cont [of c1 cp] utf8_recompose(1) [of cp] show ?thesis
      by (simp add: utf8_decode_cp_def Let_def)
  next
    case 3
    then have "cp div 4096 < 16" by simp
    with 3 cont [of c1 "cp div 64"] cont [of c2 cp] utf8_recompose(2) [of cp] show ?thesis
      by (simp add: utf8_decode_cp_def Let_def)
  next
    case 4
    then have "cp div 262144 < 5" by simp
    with 4 cont [of c1 "cp div 4096"] cont [of c2 "cp div 64"] cont [of c3 cp]
      utf8_recompose(3) [of cp] show ?thesis
      by (simp add: utf8_decode_cp_def Let_def)
  qed
qed

lemma utf8_encode_cp_nonempty: "utf8_encode_cp cp = Some enc \<Longrightarrow> enc \<noteq> []"
  using utf8_encode_cp_shape [of cp enc] by auto

lemma bytes_decode_str_encode: "str_encode s = Inr bs \<Longrightarrow> bytes_decode bs = Inr s"
proof (induction s arbitrary: bs)
  case Nil
  then show ?case by (simp add: bytes_decode.simps)
next
  case (Cons cp s)
  then obtain enc rest where enc: "utf8_encode_cp cp = Some enc"
    and rest: "str_encode s = Inr rest" and bs: "bs = enc @ rest"
    by (auto split: option.splits sum.splits)
  have "bytes_decode (enc @ rest) = Inr (cp # s)"
    using utf8_encode_cp_nonempty [OF enc] utf8_decode_cp_encode [OF enc, of rest]
      Cons.IH [OF rest]
    by (subst bytes_decode.simps) simp
  then show ?case by (simp add: bs)
qed

section \<open>The operating system: randomness and files\<close>

text \<open>
  \<open>os.urandom\<close> reads the system's entropy source, modelled as an infinite sequence of
  bytes and the position of the next unread one. A path names a regular file with its
  content, or something that exists but cannot be opened for reading (a directory, a file
  without read permission); \<open>creatable\<close> says whether a new file can be created at a
  path.
\<close>

datatype fnode = RegularFile bytes | NoAccess

record world =
  entropy :: "nat \<Rightarrow> byte"
  entropy_pos :: nat
  files :: "string \<rightharpoonup> fnode"
  creatable :: "string \<Rightarrow> bool"

definition os_urandom :: "nat \<Rightarrow> world \<Rightarrow> bytes \<times> world" where
  "os_urandom n w =
     (map (entropy w) [entropy_pos w ..< entropy_pos w + n],
      w\<lparr>entropy_pos := entropy_pos w + n\<rparr>)"

section \<open>encryption/encrypt.py and encryption/decrypt.py\<close>

text \<open>
  \<open>encryptApiKey(apiKey, key)\<close>. The body of the \<open>try\<close>, in source order:
  \<open>AESGCM(key)\<close>, \<open>os.urandom(12)\<close>, \<open>apiKey.encode()\<close>, \<open>aesgcm.encrypt\<close>, and the two
  \<open>base64.b64encode(...).decode()\<close>. The \<open>except Exception\<close> clause returns
  \<open>(None, None)\<close>.
\<close>

definition encryptApiKey_body ::
  "blockcipher \<Rightarrow> world \<Rightarrow> pystr \<Rightarrow> pyobj \<Rightarrow> (pyexn + pystr \<times> pystr) \<times> world" where
  "encryptApiKey_body E w apiKey key =
     (case AESGCM key of
        Inl e \<Rightarrow> (Inl e, w)
      | Inr aesgcm \<Rightarrow>
          let (iv, w') = os_urandom 12 w in
          (case str_encode apiKey of Inl e \<Rightarrow> (Inl e, w') | Inr data \<Rightarrow>
           case AESGCM_encrypt E aesgcm iv data of Inl e \<Rightarrow> (Inl e, w') | Inr ciphertext \<Rightarrow>
           case bytes_decode (b64encode iv) of Inl e \<Rightarrow> (Inl e, w') | Inr ivB64 \<Rightarrow>
           case bytes_decode (b64encode ciphertext) of Inl e \<Rightarrow> (Inl e, w')
           | Inr ciphertextB64 \<Rightarrow> (Inr (ivB64, ciphertextB64), w')))"

definition encryptApiKey ::
  "blockcipher \<Rightarrow> world \<Rightarrow> pystr \<Rightarrow> pyobj \<Rightarrow> (pyexn + pyobj \<times> pyobj) \<times> world" where
  "encryptApiKey E w apiKey key =
     (case encryptApiKey_body E w apiKey key of
        (Inr (ivB64, ciphertextB64), w') \<Rightarrow> (Inr (PyStr ivB64, PyStr ciphertextB64), w')
      | (Inl e, w') \<Rightarrow> if isException e then (Inr (PyNone, PyNone), w') else (Inl e, w'))"

text \<open>
  \<open>decryptApiKey(iv, ciphertext, key)\<close>. The body of the \<open>try\<close>: \<open>AESGCM(key)\<close>, the two
  \<open>base64.b64decode\<close>, \<open>aesgcm.decrypt\<close>, \<open>decrypted.decode()\<close>. The \<open>except Exception\<close>
  clause returns \<open>None\<close>.
\<close>

definition decryptApiKey_body :: "blockcipher \<Rightarrow> pyobj \<Rightarrow> pyobj \<Rightarrow> pyobj \<Rightarrow> pyexn + pystr" where
  "decryptApiKey_body E iv ciphertext key =
     (case AESGCM key of Inl e \<Rightarrow> Inl e | Inr aesgcm \<Rightarrow>
      case b64decode iv of Inl e \<Rightarrow> Inl e | Inr ivBytes \<Rightarrow>
      case b64decode ciphertext of Inl e \<Rightarrow> Inl e | Inr ciphertextBytes \<Rightarrow>
      case AESGCM_decrypt E aesgcm ivBytes ciphertextBytes of Inl e \<Rightarrow> Inl e
      | Inr decrypted \<Rightarrow> bytes_decode decrypted)"

definition decryptApiKey :: "blockcipher \<Rightarrow> pyobj \<Rightarrow> pyobj \<Rightarrow> pyobj \<Rightarrow> pyexn + pyobj" where
  "decryptApiKey E iv ciphertext key =
     (case decryptApiKey_body E iv ciphertext key of
        Inr apiKey \<Rightarrow> Inr (PyStr apiKey)
      | Inl e \<Rightarrow> if isException e then Inr PyNone else Inl e)"

section \<open>Encrypting and decrypting\<close>

lemma bytes_decode_ascii:
  "list_all (\<lambda>b. unat b < 0x80) bs \<Longrightarrow> bytes_decode bs = Inr (map unat bs)"
proof (induction bs)
  case Nil
  then show ?case by (simp add: bytes_decode.simps)
next
  case (Cons b bs)
  then have "utf8_decode_cp (b # bs) = Some (unat b, bs)"
    by (simp add: utf8_decode_cp_def)
  with Cons show ?case
    by (subst bytes_decode.simps) simp
qed

lemma ascii_encode_ascii:
  "list_all (\<lambda>b. unat b < 0x80) bs \<Longrightarrow> ascii_encode (map unat bs) = Inr bs"
  by (simp add: ascii_encode_def list_all_iff map_idI)

lemma table_b2a_base64_ascii: "v < 64 \<Longrightarrow> unat (table_b2a_base64 v) < 0x80"
  by (simp add: table_b2a_base64_unat) arith

lemma b2a_base64_ascii: "list_all (\<lambda>b. unat b < 0x80) (b2a_base64 bs)"
  by (induction bs rule: b2a_base64.induct)
     (simp_all add: table_b2a_base64_ascii sextet_bounds BASE64_PAD_def)

lemma b64_text_roundtrip:
  "bytes_decode (b64encode bs) = Inr (map unat (b64encode bs)) \<and>
   b64decode (PyStr (map unat (b64encode bs))) = Inr bs"
  using b2a_base64_ascii [of bs]
  by (simp add: bytes_decode_ascii ascii_encode_ascii b64decode_def a2b_b2a_base64
        b64encode_def [symmetric])


lemma length_os_urandom [simp]: "length (fst (os_urandom n w)) = n"
  by (simp add: os_urandom_def)

text \<open>
  C1. Let \<open>m\<close> be a plaintext that UTF-8 encodes (no lone surrogate) to at most
  \<open>2^31 - 1\<close> bytes, and \<open>k\<close> a key of 16, 24 or 32 bytes. Whatever the block cipher and
  whatever nonce the entropy source yields, \<open>encryptApiKey\<close> returns a pair of strings, and
  \<open>decryptApiKey\<close> applied to that pair under the same key returns exactly \<open>m\<close>. The proof
  goes through the base64 text of nonce and ciphertext in both directions.
\<close>

theorem encryptApiKey_decryptApiKey:
  assumes "str_encode m = Inr data" and "length data \<le> MAX_SIZE"
    and "length k \<in> {16, 24, 32}"
  shows "\<exists>ivB64 ciphertextB64 w'.
           encryptApiKey E w m (PyBytes k) = (Inr (PyStr ivB64, PyStr ciphertextB64), w') \<and>
           decryptApiKey E (PyStr ivB64) (PyStr ciphertextB64) (PyBytes k) = Inr (PyStr m)"
proof -
  obtain iv w' where rnd: "os_urandom 12 w = (iv, w')"
    by (cases "os_urandom 12 w")
  then have iv: "length iv = 12"
    using length_os_urandom [of 12 w] by simp
  let ?ct = "gcm_encrypt E k iv data []"
  let ?ivB64 = "map unat (b64encode iv)"
  let ?ctB64 = "map unat (b64encode ?ct)"
  have key: "AESGCM (PyBytes k) = Inr k"
    using assms(3) by (simp add: AESGCM_def)
  have encr: "AESGCM_encrypt E k iv data = Inr ?ct"
    using assms(2) iv by (simp add: AESGCM_encrypt_def)
  have "encryptApiKey_body E w m (PyBytes k) = (Inr (?ivB64, ?ctB64), w')"
    by (simp add: encryptApiKey_body_def key rnd assms(1) encr b64_text_roundtrip)
  then have 1: "encryptApiKey E w m (PyBytes k) = (Inr (PyStr ?ivB64, PyStr ?ctB64), w')"
    by (simp add: encryptApiKey_def)
  have decr: "AESGCM_decrypt E k iv ?ct = Inr data"
    using iv by (simp add: AESGCM_decrypt_def gcm_decrypt_encrypt)
  have "decryptApiKey_body E (PyStr ?ivB64) (PyStr ?ctB64) (PyBytes k) = Inr m"
    by (simp add: decryptApiKey_body_def key b64_text_roundtrip decr
          bytes_decode_str_encode [OF assms(1)])
  then have 2: "decryptApiKey E (PyStr ?ivB64) (PyStr ?ctB64) (PyBytes k) = Inr (PyStr m)"
    by (simp add: decryptApiKey_def)
  from 1 2 show ?thesis by blast
qed

theorem encryptApiKey_decryptApiKey_witness:
  "str_encode (ascii_str ''sk-12345'') = Inr (ascii_bytes ''sk-12345'') \<and>
   length (ascii_bytes ''sk-12345'') \<le> MAX_SIZE \<and>
   length (replicate 32 0 :: bytes) \<in> {16, 24, 32} \<and>
   (\<forall>E w. \<exists>ivB64 ciphertextB64 w'.
      encryptApiKey E w (ascii_str ''sk-12345'') (PyBytes (replicate 32 0))
        = (Inr (PyStr ivB64, PyStr ciphertextB64), w') \<and>
      decryptApiKey E (PyStr ivB64) (PyStr ciphertextB64) (PyBytes (replicate 32 0))
        = Inr (PyStr (ascii_str ''sk-12345'')))"
proof -
  have 1: "str_encode (ascii_str ''sk-12345'') = Inr (ascii_bytes ''sk-12345'')"
    by code_simp
  have 2: "length (ascii_bytes ''sk-12345'') \<le> MAX_SIZE"
    by (simp add: ascii_bytes_def MAX_SIZE_def)
  have 3: "length (replicate 32 0 :: bytes) \<in> {16, 24, 32}"
    by simp
  from 1 2 3 encryptApiKey_decryptApiKey [OF 1 2 3] show ?thesis
    by blast
qed

section \<open>\<open>decryptApiKey\<close> never raises\<close>

lemma a2b_loop_Inl: "a2b_loop q l p out cs = Inl e \<Longrightarrow> e = BinasciiError"
  by (induction q l p out cs rule: a2b_loop.induct)
     (auto split: if_splits option.splits)

lemma b64decode_Inl: "b64decode s = Inl e \<Longrightarrow> isException e"
  by (auto simp: b64decode_def ascii_encode_def a2b_base64_def
           split: pyobj.splits sum.splits if_splits dest: a2b_loop_Inl)

lemma bytes_decode_Inl: "bytes_decode bs = Inl e \<Longrightarrow> e = UnicodeDecodeError"
proof (induction bs rule: bytes_decode.induct)
  case (1 bs)
  from "1.prems" have ne: "bs \<noteq> []"
    by (subst (asm) bytes_decode.simps) (simp split: if_splits)
  show ?case
  proof (cases "utf8_decode_cp bs")
    case None
    with "1.prems" ne show ?thesis
      by (subst (asm) bytes_decode.simps) simp
  next
    case (Some a)
    then obtain cp rest where a: "utf8_decode_cp bs = Some (cp, rest)"
      by (cases a) auto
    with "1.prems" ne have "bytes_decode rest = Inl e"
      by (subst (asm) bytes_decode.simps) (simp split: sum.splits)
    with "1.IH" [OF ne a refl] show ?thesis .
  qed
qed

lemma AESGCM_Inl: "AESGCM key = Inl e \<Longrightarrow> isException e"
  by (auto simp: AESGCM_def split: pyobj.splits if_splits)

lemma AESGCM_decrypt_Inl: "AESGCM_decrypt E k n d = Inl e \<Longrightarrow> isException e"
  by (auto simp: AESGCM_decrypt_def gcm_decrypt_def Let_def split: if_splits)

lemma decryptApiKey_body_Inl: "decryptApiKey_body E iv ct key = Inl e \<Longrightarrow> isException e"
  by (auto simp: decryptApiKey_body_def split: sum.splits
           dest: AESGCM_Inl b64decode_Inl AESGCM_decrypt_Inl bytes_decode_Inl)

text \<open>
  C10. For every \<open>iv\<close>, \<open>ciphertext\<close> and \<open>key\<close> object (strings that are not base64,
  ciphertexts shorter than a tag, keys of any length or type), \<open>decryptApiKey\<close> returns:
  it yields a string or \<open>None\<close>, and no exception escapes it.
\<close>

theorem decryptApiKey_total:
  "\<exists>r. decryptApiKey E iv ciphertext key = Inr r \<and> (r = PyNone \<or> (\<exists>s. r = PyStr s))"
proof (cases "decryptApiKey_body E iv ciphertext key")
  case (Inl e)
  with decryptApiKey_body_Inl [OF Inl] show ?thesis
    by (simp add: decryptApiKey_def)
next
  case (Inr s)
  then show ?thesis
    by (simp add: decryptApiKey_def)
qed

section \<open>What a corrupted ciphertext does\<close>





















end
